theory Spec2Isabelle
  imports Main "HOL-Library.Word" "HOL-Library.Sublist"
begin

unbundle bit_operations_syntax

section \<open>Data model\<close>

type_synonym byte = "8 word"

text \<open>
  Go's \<open>error\<close> values that reach the caller of this package: an error handed back by the
  USB driver (opaque, identified by its message), and the one error the package builds
  itself, \<open>fmt.Errorf("short %d-byte read: no space for header", n)\<close>.
\<close>

datatype error = TransportError string | ShortRead nat

text \<open>
  A Go call either returns its results or panics at run time (here: a slice expression
  whose bounds are out of range).
\<close>

datatype 'a outcome = Returns 'a | Panics

text \<open>
  \<open>driver.USBDevice\<close> is an interface whose implementation lives outside this package
  (the bulk endpoints of a USB stack). It is modelled as a deterministic device under
  test: \<open>writeRes k\<close> is the error of the \<open>k\<close>-th call of \<open>Write\<close>, and
  \<open>readRes k len\<close> the result of the \<open>k\<close>-th call of \<open>Read\<close> when it is handed a
  buffer of \<open>len\<close> bytes: the count \<open>n\<close> it reports, the bytes it stores at the start
  of the buffer, and its error. \<open>writeLog\<close> keeps the byte slice of every \<open>Write\<close> call
  and \<open>readLog\<close> the buffer length of every \<open>Read\<close> call, in call order. The count is
  a number of bytes transferred, hence a \<open>nat\<close>.
\<close>

record USBDevice =
  writeLog :: "byte list list"
  readLog :: "nat list"
  writeRes :: "nat \<Rightarrow> error option"
  readRes :: "nat \<Rightarrow> nat \<Rightarrow> nat \<times> byte list \<times> error option"

text \<open>Go's builtin \<open>copy(dst, src)\<close>: copies \<open>min(len(dst), len(src))\<close> elements.\<close>

definition copy_go :: "'a list \<Rightarrow> 'a list \<Rightarrow> 'a list" where
  "copy_go dst src = take (length dst) src @ drop (length src) dst"

definition usb_Write :: "USBDevice \<Rightarrow> byte list \<Rightarrow> error option \<times> USBDevice" where
  "usb_Write u data =
     (writeRes u (length (writeLog u)), u\<lparr>writeLog := writeLog u @ [data]\<rparr>)"

definition usb_Read :: "USBDevice \<Rightarrow> byte list \<Rightarrow> (nat \<times> error option) \<times> byte list \<times> USBDevice" where
  "usb_Read u buf =
     (case readRes u (length (readLog u)) (length buf) of
        (n, bs, err) \<Rightarrow> ((n, err), copy_go buf bs, u\<lparr>readLog := readLog u @ [length buf]\<rparr>))"

record Device =
  usbDevice :: USBDevice
  bTag :: byte
  termChar :: byte
  termCharEnabled :: bool

definition maxPacketSize :: nat where
  "maxPacketSize = 512"

definition usbtmcHeaderLen :: nat where
  "usbtmcHeaderLen = 12"

section \<open>Header codec and tag sequencer\<close>

text \<open>
  Modelled from the spec: the constant \<open>bulkOutHeaderSize\<close> is declared in a file of the
  package that is not among the sources; the header is the fixed 12-byte structure.
\<close>

definition bulkOutHeaderSize :: nat where
  "bulkOutHeaderSize = 12"

text \<open>
  Modelled from the spec: \<open>nextbTag\<close> is missing from the sources. It increments the tag
  through the valid range and wraps while skipping the reserved value 0.
\<close>

definition nextbTag :: "byte \<Rightarrow> byte" where
  "nextbTag t = (if t + 1 = 0 then 1 else t + 1)"

text \<open>
  Modelled from the spec: \<open>invertbTag\<close> is missing from the sources. The tag inverse is
  \<open>0xFF - tag\<close>, the bitwise complement.
\<close>

definition invertbTag :: "byte \<Rightarrow> byte" where
  "invertbTag t = 0xFF - t"

text \<open>\<open>binary.LittleEndian\<close>: a 32-bit unsigned value as four bytes and back.\<close>

definition LittleEndian_PutUint32 :: "32 word \<Rightarrow> byte list" where
  "LittleEndian_PutUint32 v =
     [ucast v, ucast (drop_bit 8 v), ucast (drop_bit 16 v), ucast (drop_bit 24 v)]"

definition LittleEndian_Uint32 :: "byte list \<Rightarrow> 32 word" where
  "LittleEndian_Uint32 b =
     ucast (b ! 0) OR push_bit 8 (ucast (b ! 1)) OR push_bit 16 (ucast (b ! 2))
       OR push_bit 24 (ucast (b ! 3))"

text \<open>
  Modelled from the spec: the message identifiers are missing from the sources. The
  values are those of the USBTMC wire format; \<open>inHdrToString\<close> prints 1 and 126 for the
  two OUT kinds.
\<close>

definition devDepMsgOut :: byte where "devDepMsgOut = 1"
definition devDepMsgIn :: byte where "devDepMsgIn = 2"
definition vendorSpecificOut :: byte where "vendorSpecificOut = 126"
definition vendorSpecificIn :: byte where "vendorSpecificIn = 127"

text \<open>
  Modelled from the spec: \<open>encodeBulkOutHeader\<close> is missing from the sources. The header
  is \<open>[messageID:1][tag:1][tagInverse:1][reserved:1][transferSize:4 LE][attributes:1]
  [reserved:3]\<close>; the end-of-message bit (bit 0 of the attributes) is set iff the
  third argument is true.
\<close>

definition encodeBulkOutHeader :: "byte \<Rightarrow> 32 word \<Rightarrow> bool \<Rightarrow> byte list" where
  "encodeBulkOutHeader tag transferSize eom =
     [devDepMsgOut, tag, invertbTag tag, 0] @ LittleEndian_PutUint32 transferSize
       @ [if eom then 1 else 0, 0, 0, 0]"

text \<open>
  Modelled from the spec: \<open>encodeMsgInBulkOutHeader\<close> is missing from the sources. It
  builds the IN-request header; the terminator-requested bit (bit 1 of the attributes)
  is set iff the third argument is true, and the terminator character is embedded
  regardless.
\<close>

definition encodeMsgInBulkOutHeader :: "byte \<Rightarrow> 32 word \<Rightarrow> bool \<Rightarrow> byte \<Rightarrow> byte list" where
  "encodeMsgInBulkOutHeader tag transferSize useTerm tchar =
     [devDepMsgIn, tag, invertbTag tag, 0] @ LittleEndian_PutUint32 transferSize
       @ [if useTerm then 2 else 0, tchar, 0, 0]"

section \<open>Write pipeline\<close>

definition maxTransferSize :: nat where
  "maxTransferSize = 512"

text \<open>
  \<open>Device.Write\<close>. The loop \<open>for pos := 0; pos < len(p); { ... }\<close> is the recursion of
  \<open>Write_loop\<close> on \<open>pos\<close>; the device is passed through and returned.
\<close>

function Write_loop :: "Device \<Rightarrow> byte list \<Rightarrow> nat \<Rightarrow> (nat \<times> error option) \<times> Device" where
  "Write_loop d p pos =
     (if pos < length p then
        (let d1 = d\<lparr>bTag := nextbTag (bTag d)\<rparr>;
             thisLen = length (drop pos p);
             thisLen = (if thisLen > maxTransferSize - bulkOutHeaderSize
                        then maxTransferSize - bulkOutHeaderSize else thisLen);
             header = encodeBulkOutHeader (bTag d1) (of_nat thisLen) True;
             data = header @ take thisLen (drop pos p);
             moduloFour = length data mod 4;
             data = (if moduloFour > 0 then data @ replicate (4 - moduloFour) 0 else data);
             r = usb_Write (usbDevice d1) data;
             d2 = d1\<lparr>usbDevice := snd r\<rparr>
         in case fst r of
              Some err \<Rightarrow> ((pos, Some err), d2)
            | None \<Rightarrow> Write_loop d2 p (pos + thisLen))
      else ((length p, None), d))"
  by pat_completeness auto

termination
proof (relation "measure (\<lambda>(d, p, pos). length p - pos)")
  show "wf (measure (\<lambda>(d :: Device, p :: byte list, pos :: nat). length p - pos))"
    by simp
next
  fix d d2 :: Device and p :: "byte list" and pos xa xb :: nat
  assume less: "pos < length p"
    and xa: "xa = length (drop pos p)"
    and xb: "xb = (if maxTransferSize - bulkOutHeaderSize < xa
                   then maxTransferSize - bulkOutHeaderSize else xa)"
  from less xa xb have "0 < xb"
    by (simp add: maxTransferSize_def bulkOutHeaderSize_def)
  with less show "((d2, p, pos + xb), d, p, pos) \<in> measure (\<lambda>(d, p, pos). length p - pos)"
    by simp
qed

definition Write :: "Device \<Rightarrow> byte list \<Rightarrow> (nat \<times> error option) \<times> Device" where
  "Write d p = Write_loop d p 0"

declare Write_loop.simps [simp del]

section \<open>Read pipeline\<close>

text \<open>
  \<open>Device.readRemoveHeader\<close>: the first raw read of a response, into a temporary buffer
  of \<open>len(p) + 12\<close> bytes rounded up to a multiple of 512. The results are
  \<open>(n, transfer, transferAttr, err)\<close>, then the caller's buffer and the device. The
  debug trace of the header (\<open>inHdrToString(temp)\<close>) reads the first 12 bytes of the
  temporary buffer, which has at least 512, and its text is discarded.
\<close>

definition readRemoveHeader ::
  "Device \<Rightarrow> byte list \<Rightarrow> (nat \<times> nat \<times> byte \<times> error option) \<times> byte list \<times> Device" where
  "readRemoveHeader d p =
     (let tempSz = length p + usbtmcHeaderLen;
          m = tempSz mod 512;
          tempSz = (if m \<noteq> 0 then tempSz + (512 - m) else tempSz);
          temp = replicate tempSz 0;
          r = usb_Read (usbDevice d) temp;
          n = fst (fst r);
          err = snd (fst r);
          temp = fst (snd r);
          d1 = d\<lparr>usbDevice := snd (snd r)\<rparr>
      in case err of
           Some e \<Rightarrow> ((0, 0, 0, Some e), p, d1)
         | None \<Rightarrow>
             if n < usbtmcHeaderLen then ((0, 0, 0, Some (ShortRead n)), p, d1)
             else
               (let t32 = LittleEndian_Uint32 (take 4 (drop 4 temp));
                    transfer = unat t32;
                    transferAttr = temp ! 8;
                    toCopy = min (length temp - usbtmcHeaderLen) (n - usbtmcHeaderLen);
                    p1 = (if toCopy > 0
                          then copy_go p (take toCopy (drop usbtmcHeaderLen temp)) else p)
                in ((n - usbtmcHeaderLen, transfer, transferAttr, None), p1, d1)))"

definition readKeepHeader ::
  "Device \<Rightarrow> byte list \<Rightarrow> (nat \<times> error option) \<times> byte list \<times> Device" where
  "readKeepHeader d p =
     (let r = usb_Read (usbDevice d) p
      in (fst r, fst (snd r), d\<lparr>usbDevice := snd (snd r)\<rparr>))"

text \<open>
  The reads of \<open>doRead\<close> never change the length of the caller's buffer.
\<close>

lemma length_copy_go: "length (copy_go dst src) = length dst"
  by (simp add: copy_go_def)

lemma usb_Read_length: "length (fst (snd (usb_Read u buf))) = length buf"
  by (simp add: usb_Read_def length_copy_go split: prod.splits)

lemma readRemoveHeader_length: "length (fst (snd (readRemoveHeader d p))) = length p"
  by (simp add: readRemoveHeader_def Let_def length_copy_go split: option.splits)

lemma readKeepHeader_length: "length (fst (snd (readKeepHeader d p))) = length p"
  by (simp add: readKeepHeader_def Let_def usb_Read_length)

text \<open>
  The reassembly loop of \<open>Device.doRead\<close>, \<open>for pos < len(p) { ... }\<close>. The arguments of
  \<open>debug.Printf\<close> are evaluated whether or not the trace is enabled, so the slice
  expression \<open>p[pos:dumpLen]\<close> is: it panics when \<open>pos > dumpLen\<close> (its upper bound
  \<open>dumpLen \<le> len(p)\<close> always holds). A \<open>break\<close> leaves the loop for
  \<open>return min(pos, transfer), nil\<close>. \<open>transfer\<close> is \<open>int(t32)\<close>, not negative where
  \<open>int\<close> has 64 bits.
\<close>

function doRead_loop ::
  "Device \<Rightarrow> byte list \<Rightarrow> nat \<Rightarrow> nat \<Rightarrow> (nat \<times> error option) outcome \<times> byte list \<times> Device" where
  "doRead_loop d p pos transfer =
     (if pos < length p then
        (let r = (if pos = 0 then
                    (case readRemoveHeader d (drop pos p) of
                       ((n, t, a, e), q, d1) \<Rightarrow> ((n, t, e), q, d1))
                  else
                    (case readKeepHeader d (drop pos p) of
                       ((n, e), q, d1) \<Rightarrow> ((n, transfer, e), q, d1)));
             resp = fst (fst r);
             transfer1 = fst (snd (fst r));
             err = snd (snd (fst r));
             p1 = take pos p @ fst (snd r);
             d1 = snd (snd r);
             dumpLen = (if resp < 100 then resp else 100);
             left = length p - pos;
             dumpLen = (if left < dumpLen then left else dumpLen)
         in if dumpLen < pos then (Panics, p1, d1)
            else
              (case err of
                 Some e \<Rightarrow> (Returns (pos, Some e), p1, d1)
               | None \<Rightarrow>
                   if resp = 0 then (Returns (min pos transfer1, None), p1, d1)
                   else if transfer1 \<le> pos + resp
                     then (Returns (min (pos + resp) transfer1, None), p1, d1)
                   else doRead_loop d1 p1 (pos + resp) transfer1))
      else (Returns (min pos transfer, None), p, d))"
  by pat_completeness auto

termination
proof (relation "measure (\<lambda>(d, p, pos, transfer). length p - pos)")
  show "wf (measure (\<lambda>(d :: Device, p :: byte list, pos :: nat, transfer :: nat). length p - pos))"
    by simp
next
  fix d d1 :: Device and p p1 :: "byte list" and pos transfer transfer1 resp :: nat
    and r :: "(nat \<times> nat \<times> error option) \<times> byte list \<times> Device"
  assume less: "pos < length p"
    and r: "r = (if pos = 0 then
                    (case readRemoveHeader d (drop pos p) of
                       ((n, t, a, e), q, d1) \<Rightarrow> ((n, t, e), q, d1))
                  else
                    (case readKeepHeader d (drop pos p) of
                       ((n, e), q, d1) \<Rightarrow> ((n, transfer, e), q, d1)))"
    and p1: "p1 = take pos p @ fst (snd r)"
    and resp: "resp \<noteq> 0"
  have "length (fst (snd r)) = length (drop pos p)"
  proof (cases "pos = 0")
    case True
    then have "fst (snd r) = fst (snd (readRemoveHeader d (drop pos p)))"
      unfolding r by (simp split: prod.splits)
    then show ?thesis by (simp only: readRemoveHeader_length)
  next
    case False
    then have "fst (snd r) = fst (snd (readKeepHeader d (drop pos p)))"
      unfolding r by (simp split: prod.splits)
    then show ?thesis by (simp only: readKeepHeader_length)
  qed
  with less p1 have "length p1 = length p" by simp
  with less resp
  show "((d1, p1, pos + resp, transfer1), d, p, pos, transfer)
          \<in> measure (\<lambda>(d, p, pos, transfer). length p - pos)"
    by simp
qed

declare doRead_loop.simps [simp del]

definition doRead ::
  "Device \<Rightarrow> byte list \<Rightarrow> bool \<Rightarrow> (nat \<times> error option) outcome \<times> byte list \<times> Device" where
  "doRead d p useTermChar =
     (let d1 = d\<lparr>bTag := nextbTag (bTag d)\<rparr>;
          header = encodeMsgInBulkOutHeader (bTag d1) (of_nat (length p))
                     (useTermChar \<and> termCharEnabled d1) (termChar d1);
          r = usb_Write (usbDevice d1) header;
          d2 = d1\<lparr>usbDevice := snd r\<rparr>
      in case fst r of
           Some err \<Rightarrow> (Returns (0, Some err), p, d2)
         | None \<Rightarrow> doRead_loop d2 p 0 0)"

definition Read :: "Device \<Rightarrow> byte list \<Rightarrow> (nat \<times> error option) outcome \<times> byte list \<times> Device" where
  "Read d p = doRead d p True"

definition BulkRead :: "Device \<Rightarrow> byte list \<Rightarrow> (nat \<times> error option) outcome \<times> byte list \<times> Device" where
  "BulkRead d p = doRead d p False"

section \<open>Reading transfers back\<close>

text \<open>
  What the transfers on the wire say, decoded the way the package itself decodes a header:
  the transfer size is \<open>binary.LittleEndian.Uint32(buf[4:8])\<close>, the end-of-message bit is
  \<open>attr & 1\<close> of byte 8, the tag is byte 1 and its inverse byte 2.
\<close>

definition hdr_transferSize :: "byte list \<Rightarrow> nat" where
  "hdr_transferSize t = unat (LittleEndian_Uint32 (take 4 (drop 4 t)))"

definition hdr_EOM :: "byte list \<Rightarrow> bool" where
  "hdr_EOM t = (t ! 8 AND 1 \<noteq> 0)"

definition hdr_payload :: "byte list \<Rightarrow> byte list" where
  "hdr_payload t = take (hdr_transferSize t) (drop usbtmcHeaderLen t)"

text \<open>
  The bytes \<open>Write\<close> hands to the transport for one chunk under tag \<open>tag\<close> (the body of
  its loop up to the call of \<open>usbDevice.Write\<close>), the transfers of the first \<open>i\<close> chunks
  from position \<open>pos\<close> on, and the device after them.
\<close>

definition frame :: "byte \<Rightarrow> byte list \<Rightarrow> byte list" where
  "frame tag chunk =
     (let data = encodeBulkOutHeader tag (of_nat (length chunk)) True @ chunk;
          moduloFour = length data mod 4
      in if moduloFour > 0 then data @ replicate (4 - moduloFour) 0 else data)"

definition sent :: "Device \<Rightarrow> byte list \<Rightarrow> nat \<Rightarrow> nat \<Rightarrow> byte list list" where
  "sent d p pos i =
     map (\<lambda>k. frame ((nextbTag ^^ Suc k) (bTag d)) (take 500 (drop (pos + 500 * k) p))) [0..<i]"

definition after_writes :: "Device \<Rightarrow> byte list \<Rightarrow> nat \<Rightarrow> nat \<Rightarrow> Device" where
  "after_writes d p pos i =
     d\<lparr>bTag := (nextbTag ^^ i) (bTag d),
       usbDevice := (usbDevice d)\<lparr>writeLog := writeLog (usbDevice d) @ sent d p pos i\<rparr>\<rparr>"

text \<open>
  The size of the temporary buffer of \<open>readRemoveHeader\<close> for a caller's buffer of \<open>len\<close>
  bytes (its first four statements), the IN-request header \<open>doRead\<close> sends, the device
  after that header went out, and the device after one more raw read into a buffer of
  \<open>len\<close> bytes.
\<close>

definition tempSize :: "nat \<Rightarrow> nat" where
  "tempSize len =
     (let tempSz = len + usbtmcHeaderLen;
          m = tempSz mod 512
      in if m \<noteq> 0 then tempSz + (512 - m) else tempSz)"

definition request_header :: "Device \<Rightarrow> nat \<Rightarrow> bool \<Rightarrow> byte list" where
  "request_header d len useTermChar =
     encodeMsgInBulkOutHeader (nextbTag (bTag d)) (of_nat len)
       (useTermChar \<and> termCharEnabled d) (termChar d)"

definition after_request :: "Device \<Rightarrow> nat \<Rightarrow> bool \<Rightarrow> Device" where
  "after_request d len useTermChar =
     d\<lparr>bTag := nextbTag (bTag d),
       usbDevice := (usbDevice d)\<lparr>writeLog := writeLog (usbDevice d)
                                      @ [request_header d len useTermChar]\<rparr>\<rparr>"

definition after_read :: "Device \<Rightarrow> nat \<Rightarrow> Device" where
  "after_read d len =
     d\<lparr>usbDevice := (usbDevice d)\<lparr>readLog := readLog (usbDevice d) @ [len]\<rparr>\<rparr>"

text \<open>
  A transport that accepts every write and delivers nothing on a read, with empty logs,
  and the device \<open>defaultDevice()\<close> (terminator newline, tag 1, terminator enabled) bound
  to a transport, as \<open>NewDeviceByVIDPID\<close> binds it under the start tag 1.
\<close>

definition quietUSB :: USBDevice where
  "quietUSB = \<lparr>writeLog = [], readLog = [], writeRes = (\<lambda>k. None),
                readRes = (\<lambda>k len. (0, [], None))\<rparr>"

definition defaultDevice :: "USBDevice \<Rightarrow> Device" where
  "defaultDevice u = \<lparr>usbDevice = u, bTag = 1, termChar = 0x0A, termCharEnabled = True\<rparr>"

text \<open>A transport that rejects its \<open>i\<close>-th write with the error \<open>e\<close>.\<close>

definition rejectingUSB :: "nat \<Rightarrow> error \<Rightarrow> USBDevice" where
  "rejectingUSB i e = quietUSB\<lparr>writeRes := (\<lambda>k. if k = i then Some e else None)\<rparr>"

text \<open>A transport whose reads deliver 5 bytes.\<close>

definition shortUSB :: USBDevice where
  "shortUSB = quietUSB\<lparr>readRes := (\<lambda>k len. (5, [2, 2, 0xFD, 0, 9], None))\<rparr>"

text \<open>
  A transport whose first read delivers a 12-byte header with tag 2, tag inverse 0 (not
  \<open>0xFF - 2\<close>), transfer size 4 and the end-of-message bit, followed by 4 payload bytes.
\<close>

definition badInverseUSB :: USBDevice where
  "badInverseUSB = quietUSB\<lparr>readRes :=
     (\<lambda>k len. (16, [2, 2, 0, 0, 4, 0, 0, 0, 1, 0, 0, 0, 0xDE, 0xAD, 0xBE, 0xEF], None))\<rparr>"

text \<open>
  A transport that answers the first read with a header declaring 8 bytes and 4 payload
  bytes, and every later read with 0 bytes and no error.
\<close>

definition stallingUSB :: USBDevice where
  "stallingUSB = quietUSB\<lparr>readRes :=
     (\<lambda>k len. if k = 0 then (16, [2, 2, 0xFD, 0, 8, 0, 0, 0, 1, 0, 0, 0, 1, 2, 3, 4], None)
               else (0, [], None))\<rparr>"

text \<open>
  A transport that delivers a response of 1000 bytes in two raw reads: a header declaring
  1000 bytes with the first 500 payload bytes, then the other 500.
\<close>

definition twoPacketUSB :: USBDevice where
  "twoPacketUSB = quietUSB\<lparr>readRes :=
     (\<lambda>k len. if k = 0
               then (512, [2, 2, 0xFD, 0, 0xE8, 0x03, 0, 0, 1, 0, 0, 0] @ replicate 500 7, None)
               else (500, replicate 500 7, None))\<rparr>"

text \<open>
  A transport whose first read delivers a header declaring 8 bytes followed by all 8
  payload bytes, whatever the size the request asked for.
\<close>

definition eagerUSB :: USBDevice where
  "eagerUSB = quietUSB\<lparr>readRes :=
     (\<lambda>k len. (20, [2, 2, 0xFD, 0, 8, 0, 0, 0, 1, 0, 0, 0, 1, 2, 3, 4, 5, 6, 7, 8], None))\<rparr>"

section \<open>Command facade\<close>

text \<open>
  Go strings are byte sequences: a \<open>string\<close> here is a list of 8-bit characters, and
  \<open>[]byte(s)\<close> keeps the bytes.
\<close>

definition bytes_of :: "string \<Rightarrow> byte list" where
  "bytes_of s = map of_char s"

text \<open>
  \<open>strings.TrimSpace\<close> of Go's standard library removes all leading and trailing white
  space "as defined by Unicode" from a UTF-8 string. \<open>unicodeSpace\<close> lists the UTF-8
  encodings of the runes for which \<open>unicode.IsSpace\<close> holds: tab, line feed, vertical
  tab, form feed, carriage return, space, U+0085, U+00A0, U+1680, U+2000 to U+200A,
  U+2028, U+2029, U+202F, U+205F and U+3000. \<open>runeWidth ws s\<close> is the width of the
  sequence of \<open>ws\<close> that \<open>s\<close> starts with, 0 if there is none; \<open>trimPrefix\<close> skips such
  sequences while the string is not used up, as the library's loop over the runes does.
  Trimming on the right is the same on the reversed string.
\<close>

definition unicodeSpace :: "string list" where
  "unicodeSpace =
     [[CHR 0x09], [CHR 0x0A], [CHR 0x0B], [CHR 0x0C], [CHR 0x0D], [CHR 0x20],
      [CHR 0xC2, CHR 0x85], [CHR 0xC2, CHR 0xA0],
      [CHR 0xE1, CHR 0x9A, CHR 0x80],
      [CHR 0xE2, CHR 0x80, CHR 0x80], [CHR 0xE2, CHR 0x80, CHR 0x81],
      [CHR 0xE2, CHR 0x80, CHR 0x82], [CHR 0xE2, CHR 0x80, CHR 0x83],
      [CHR 0xE2, CHR 0x80, CHR 0x84], [CHR 0xE2, CHR 0x80, CHR 0x85],
      [CHR 0xE2, CHR 0x80, CHR 0x86], [CHR 0xE2, CHR 0x80, CHR 0x87],
      [CHR 0xE2, CHR 0x80, CHR 0x88], [CHR 0xE2, CHR 0x80, CHR 0x89],
      [CHR 0xE2, CHR 0x80, CHR 0x8A],
      [CHR 0xE2, CHR 0x80, CHR 0xA8], [CHR 0xE2, CHR 0x80, CHR 0xA9],
      [CHR 0xE2, CHR 0x80, CHR 0xAF], [CHR 0xE2, CHR 0x81, CHR 0x9F],
      [CHR 0xE3, CHR 0x80, CHR 0x80]]"

definition runeWidth :: "string list \<Rightarrow> string \<Rightarrow> nat" where
  "runeWidth ws s = (case find (\<lambda>w. prefix w s) ws of None \<Rightarrow> 0 | Some w \<Rightarrow> length w)"

function trimPrefix :: "string list \<Rightarrow> string \<Rightarrow> string" where
  "trimPrefix ws s =
     (if s = [] \<or> runeWidth ws s = 0 then s else trimPrefix ws (drop (runeWidth ws s) s))"
  by pat_completeness auto
termination
  by (relation "measure (\<lambda>(ws, s). length s)") auto

declare trimPrefix.simps [simp del]

definition TrimSpace :: "string \<Rightarrow> string" where
  "TrimSpace s = rev (trimPrefix (map rev unicodeSpace) (rev (trimPrefix unicodeSpace s)))"

definition WriteString :: "Device \<Rightarrow> string \<Rightarrow> (nat \<times> error option) \<times> Device" where
  "WriteString d s = Write d (bytes_of s)"

text \<open>
  \<open>Device.Command\<close>. The variadic arguments \<open>a\<close> are \<open>None\<close> for Go's \<open>nil\<close>;
  \<open>fmt.Sprintf\<close> is a parameter.
\<close>

definition Command ::
  "(string \<Rightarrow> 'a list \<Rightarrow> string) \<Rightarrow> Device \<Rightarrow> string \<Rightarrow> 'a list option \<Rightarrow> error option \<times> Device" where
  "Command Sprintf d format a =
     (let cmd = (case a of None \<Rightarrow> format | Some args \<Rightarrow> Sprintf format args);
          r = WriteString d (TrimSpace cmd @ [CHR 0x0A])
      in (snd (fst r), snd r))"

section \<open>Properties of the write pipeline\<close>

lemma Uint32_PutUint32: "LittleEndian_Uint32 (LittleEndian_PutUint32 v @ rest) = v"
proof -
  have "ucast (ucast v :: byte) OR push_bit 8 (ucast (ucast (drop_bit 8 v) :: byte))
          OR push_bit 16 (ucast (ucast (drop_bit 16 v) :: byte))
          OR push_bit 24 (ucast (ucast (drop_bit 24 v) :: byte)) = v"
  proof (rule bit_word_eqI)
    fix n :: nat
    assume "n < LENGTH(32)"
    then consider "n < 8" | "8 \<le> n \<and> n < 16" | "16 \<le> n \<and> n < 24" | "24 \<le> n \<and> n < 32"
      by fastforce
    then show "bit (ucast (ucast v :: byte) OR push_bit 8 (ucast (ucast (drop_bit 8 v) :: byte))
          OR push_bit 16 (ucast (ucast (drop_bit 16 v) :: byte))
          OR push_bit 24 (ucast (ucast (drop_bit 24 v) :: byte)) :: 32 word) n = bit v n"
      by cases (auto simp: bit_simps)
  qed
  then show ?thesis
    by (simp add: LittleEndian_Uint32_def LittleEndian_PutUint32_def)
qed

lemma Write_loop_step:
  assumes "pos < length p"
  shows "Write_loop d p pos =
     (let n = min 500 (length p - pos);
          t = nextbTag (bTag d);
          u = usbDevice d;
          d2 = d\<lparr>bTag := t, usbDevice := u\<lparr>writeLog := writeLog u @ [frame t (take n (drop pos p))]\<rparr>\<rparr>
      in case writeRes u (length (writeLog u)) of
           Some err \<Rightarrow> ((pos, Some err), d2)
         | None \<Rightarrow> Write_loop d2 p (pos + n))"
  using assms
  apply (subst Write_loop.simps)
  apply (simp add: Let_def frame_def usb_Write_def maxTransferSize_def bulkOutHeaderSize_def min_def
      split: option.splits)
  done

lemma after_writes_0: "after_writes d p pos 0 = d"
  by (simp add: after_writes_def sent_def)

lemma Write_loop_run:
  assumes "\<forall>k<i. writeRes (usbDevice d) (length (writeLog (usbDevice d)) + k) = None"
    and "pos \<le> length p" and "pos + 500 * i < length p + 500"
  shows "Write_loop d p pos = Write_loop (after_writes d p pos i) p (min (length p) (pos + 500 * i))"
  using assms
proof (induction i arbitrary: d pos)
  case 0
  then show ?case by (simp add: after_writes_0 min_def)
next
  case (Suc i)
  let ?u = "usbDevice d"
  let ?n = "min 500 (length p - pos)"
  let ?t = "nextbTag (bTag d)"
  let ?d2 = "d\<lparr>bTag := ?t, usbDevice := ?u\<lparr>writeLog := writeLog ?u @ [frame ?t (take ?n (drop pos p))]\<rparr>\<rparr>"
  from Suc.prems have less: "pos < length p" by simp
  from Suc.prems have w0: "writeRes ?u (length (writeLog ?u)) = None"
    by (metis add.right_neutral zero_less_Suc)
  have step: "Write_loop d p pos = Write_loop ?d2 p (pos + ?n)"
    using less w0 by (simp add: Write_loop_step Let_def)
  have ok2: "\<forall>k<i. writeRes (usbDevice ?d2) (length (writeLog (usbDevice ?d2)) + k) = None"
    using Suc.prems(1) by auto
  have n: "i = 0 \<or> ?n = 500" using Suc.prems(3) by auto
  have bound: "pos + ?n + 500 * i < length p + 500" using n less Suc.prems(3) by auto
  have le: "pos + ?n \<le> length p" using less by simp
  have IH: "Write_loop ?d2 p (pos + ?n) =
      Write_loop (after_writes ?d2 p (pos + ?n) i) p (min (length p) (pos + ?n + 500 * i))"
    by (rule Suc.IH [OF ok2 le bound])
  have take_n: "take ?n (drop pos p) = take 500 (drop pos p)"
    by (simp add: min_def)
  have sent: "[frame ?t (take ?n (drop pos p))] @ sent ?d2 p (pos + ?n) i = sent d p pos (Suc i)"
  proof (cases "i = 0")
    case True
    then show ?thesis by (simp add: sent_def take_n)
  next
    case False
    with n have "?n = 500" by simp
    then show ?thesis
      unfolding sent_def take_n
      by (simp add: map_upt_Suc funpow_swap1 add.assoc del: upt_Suc)
  qed
  have dev: "after_writes ?d2 p (pos + ?n) i = after_writes d p pos (Suc i)"
    using sent by (simp add: after_writes_def funpow_swap1)
  have pos: "min (length p) (pos + ?n + 500 * i) = min (length p) (pos + 500 * Suc i)"
    using n less Suc.prems(3) by auto
  show ?case using step IH dev pos by simp
qed

lemma length_encodeBulkOutHeader: "length (encodeBulkOutHeader t s e) = 12"
  by (simp add: encodeBulkOutHeader_def LittleEndian_PutUint32_def)

lemma frame_eq:
  "frame t c = encodeBulkOutHeader t (of_nat (length c)) True @ c
                 @ replicate ((4 - length c mod 4) mod 4) 0"
proof -
  have "(12 + length c) mod 4 = length c mod 4" by presburger
  then show ?thesis
    by (auto simp: frame_def Let_def length_encodeBulkOutHeader)
qed

lemma pad4: "(x + (4 - x mod 4) mod 4) mod 4 = (0::nat)"
proof -
  have "x mod 4 < 4" by simp
  then consider "x mod 4 = 0" | "x mod 4 = 1" | "x mod 4 = 2" | "x mod 4 = 3" by linarith
  then show ?thesis
  proof cases
    case 1 then show ?thesis by simp
  next
    case 2 then show ?thesis by simp presburger
  next
    case 3 then show ?thesis by simp presburger
  next
    case 4 then show ?thesis by simp presburger
  qed
qed

lemma length_frame:
  "length (frame t c) = 12 + (length c + (4 - length c mod 4) mod 4)"
  by (simp only: frame_eq length_append length_encodeBulkOutHeader length_replicate)

lemma mod4_skip12: "(12 + ((n::nat) + k)) mod 4 = (n + k) mod 4"
  by presburger

lemma length_frame_mod4: "length (frame t c) mod 4 = 0"
  by (simp only: length_frame mod4_skip12 pad4)

lemma hdr_transferSize_header:
  "hdr_transferSize (encodeBulkOutHeader t s e @ rest) = unat s"
proof -
  have "take 4 (drop 4 (encodeBulkOutHeader t s e @ rest)) = LittleEndian_PutUint32 s @ []"
    by (simp add: encodeBulkOutHeader_def LittleEndian_PutUint32_def)
  then show ?thesis
    unfolding hdr_transferSize_def by (simp only: Uint32_PutUint32)
qed

lemma hdr_transferSize_frame:
  assumes "length c \<le> 500"
  shows "hdr_transferSize (frame t c) = length c"
proof -
  have "unat (of_nat (length c) :: 32 word) = length c"
    using assms by (simp add: unat_of_nat)
  then show ?thesis
    unfolding frame_eq by (simp add: hdr_transferSize_header)
qed

lemma hdr_payload_frame:
  assumes "length c \<le> 500"
  shows "hdr_payload (frame t c) = c"
  using hdr_transferSize_frame [OF assms, of t]
  by (simp add: hdr_payload_def) (simp add: frame_eq usbtmcHeaderLen_def length_encodeBulkOutHeader)

lemma hdr_EOM_frame: "hdr_EOM (frame t c)"
  by (simp add: hdr_EOM_def frame_eq encodeBulkOutHeader_def LittleEndian_PutUint32_def)

lemma hdr_tag_frame: "frame t c ! 1 = t"
  by (simp add: frame_eq encodeBulkOutHeader_def)

lemma length_sent: "length (sent d p pos i) = i"
  by (simp add: sent_def)

lemma nth_sent:
  "k < i \<Longrightarrow> sent d p pos i ! k = frame ((nextbTag ^^ Suc k) (bTag d)) (take 500 (drop (pos + 500 * k) p))"
  by (simp add: sent_def del: funpow.simps)

lemma Write_loop_done: "length p \<le> pos \<Longrightarrow> Write_loop d p pos = ((length p, None), d)"
  by (simp add: Write_loop.simps)

lemma Write_all_accepted:
  assumes "\<forall>k<(length p + 499) div 500.
             writeRes (usbDevice d) (length (writeLog (usbDevice d)) + k) = None"
  shows "Write d p = ((length p, None), after_writes d p 0 ((length p + 499) div 500))"
proof -
  let ?m = "(length p + 499) div 500"
  have b: "0 + 500 * ?m < length p + 500" by arith
  have m: "min (length p) (0 + 500 * ?m) = length p" by arith
  have "Write_loop d p 0 = Write_loop (after_writes d p 0 ?m) p (min (length p) (0 + 500 * ?m))"
    by (rule Write_loop_run [OF assms _ b]) simp
  then show ?thesis
    unfolding Write_def m by (simp add: Write_loop_done)
qed

lemma Write_rejected_at:
  assumes ok: "\<forall>k<i. writeRes (usbDevice d) (length (writeLog (usbDevice d)) + k) = None"
    and bad: "writeRes (usbDevice d) (length (writeLog (usbDevice d)) + i) = Some e"
    and i: "500 * i < length p"
  shows "Write d p = ((500 * i, Some e), after_writes d p 0 (Suc i))"
proof -
  let ?d = "after_writes d p 0 i"
  have b: "0 + 500 * i < length p + 500" using i by arith
  have m: "min (length p) (0 + 500 * i) = 500 * i" using i by arith
  have run: "Write_loop d p 0 = Write_loop ?d p (500 * i)"
    using Write_loop_run [OF ok _ b] m by simp
  have res: "writeRes (usbDevice ?d) (length (writeLog (usbDevice ?d))) = Some e"
    using bad by (simp add: after_writes_def length_sent)
  have tk: "take (min 500 (length p - 500 * i)) (drop (500 * i) p) = take 500 (drop (500 * i) p)"
    by (simp add: min_def)
  have "Write_loop ?d p (500 * i) = ((500 * i, Some e), after_writes d p 0 (Suc i))"
    using i res
    by (simp add: Write_loop_step Let_def tk)
       (simp add: after_writes_def sent_def funpow_swap1)
  with run show ?thesis by (simp add: Write_def)
qed

lemma concat_chunks:
  "concat (map (\<lambda>k. take 500 (drop (500 * k) p)) [0..<m]) = take (500 * m) p"
proof (induction m)
  case 0
  then show ?case by simp
next
  case (Suc m)
  let ?f = "\<lambda>k. take 500 (drop (500 * k) p)"
  have "concat (map ?f [0..<Suc m]) = concat (map ?f [0..<m]) @ ?f m"
    by simp
  also have "\<dots> = take (500 * m) p @ take 500 (drop (500 * m) p)"
    by (simp only: Suc.IH)
  also have "\<dots> = take (500 * m + 500) p"
    by (rule take_add [symmetric])
  also have "500 * m + 500 = 500 * Suc m"
    by simp
  finally show ?case .
qed

lemma payloads_sent:
  "map hdr_payload (sent d p pos i) = map (\<lambda>k. take 500 (drop (pos + 500 * k) p)) [0..<i]"
  by (simp add: sent_def hdr_payload_frame del: funpow.simps)

lemma sizes_sent:
  "map hdr_transferSize (sent d p pos i) = map (\<lambda>k. length (take 500 (drop (pos + 500 * k) p))) [0..<i]"
  by (simp add: sent_def hdr_transferSize_frame del: funpow.simps)

lemma upt_3: "[0..<3] = [0, 1, 2]"
  by (simp add: numeral_3_eq_3)

lemma upt_2: "[0..<2] = [0, 1]"
  by (simp add: numeral_2_eq_2)

section \<open>Claims about Write\<close>

text \<open>
  Claim C4, as the code has it: calling \<open>Write\<close> with an empty payload issues no transfer
  at all. The loop \<open>for pos := 0; pos < len(p);\<close> is not entered, so the transport is not
  called, the tag is not advanced, and the result is 0 bytes and no error.
\<close>

theorem Write_empty: "Write d [] = ((0, None), d)"
  by (simp add: Write_def Write_loop.simps)

text \<open>
  Claim C4 as stated fails: on a fresh device whose transport accepts every write,
  \<open>Write\<close> of the empty payload leaves the log of transfers empty, where the claim asks
  for exactly one transfer.
\<close>

theorem Write_empty_no_transfer:
  "writeLog (usbDevice (snd (Write (defaultDevice quietUSB) []))) = []
   \<and> length (writeLog (usbDevice (snd (Write (defaultDevice quietUSB) [])))) \<noteq> 1"
  by (simp add: Write_def Write_loop.simps defaultDevice_def quietUSB_def)

text \<open>
  Claim C5: when the transport accepts the writes, a payload of length \<open>L > 0\<close> goes out
  as \<open>ceil(L / 500)\<close> transfers, appended to the log in order. Transfer \<open>i\<close> is the frame
  of bytes \<open>500 i\<close> up to \<open>500 (i + 1)\<close> of the payload, it carries at most 500 payload
  bytes, and the size its header declares is the length of that payload; the payloads
  concatenated give the payload back. A payload of 1300 bytes gives the declared sizes
  500, 500, 300. \<open>Write\<close> reports \<open>L\<close> bytes and no error.
\<close>

theorem Write_chunking:
  assumes "0 < length p"
    and "\<forall>k<(length p + 499) div 500.
           writeRes (usbDevice d) (length (writeLog (usbDevice d)) + k) = None"
  shows "\<exists>ts. writeLog (usbDevice (snd (Write d p))) = writeLog (usbDevice d) @ ts
           \<and> length ts = (length p + 499) div 500
           \<and> (\<forall>i<length ts.
                 ts ! i = frame ((nextbTag ^^ Suc i) (bTag d)) (take 500 (drop (500 * i) p))
                 \<and> hdr_payload (ts ! i) = take 500 (drop (500 * i) p)
                 \<and> length (hdr_payload (ts ! i)) \<le> 500
                 \<and> hdr_transferSize (ts ! i) = length (hdr_payload (ts ! i)))
           \<and> concat (map hdr_payload ts) = p
           \<and> (length p = 1300 \<longrightarrow> map hdr_transferSize ts = [500, 500, 300])
           \<and> fst (Write d p) = (length p, None)"
proof -
  let ?m = "(length p + 499) div 500"
  let ?ts = "sent d p 0 ?m"
  have W: "Write d p = ((length p, None), after_writes d p 0 ?m)"
    by (rule Write_all_accepted [OF assms(2)])
  have log: "writeLog (usbDevice (snd (Write d p))) = writeLog (usbDevice d) @ ?ts"
    by (simp add: W after_writes_def)
  have each: "\<forall>i<length ?ts.
                 ?ts ! i = frame ((nextbTag ^^ Suc i) (bTag d)) (take 500 (drop (500 * i) p))
                 \<and> hdr_payload (?ts ! i) = take 500 (drop (500 * i) p)
                 \<and> length (hdr_payload (?ts ! i)) \<le> 500
                 \<and> hdr_transferSize (?ts ! i) = length (hdr_payload (?ts ! i))"
    by (simp add: length_sent nth_sent hdr_payload_frame hdr_transferSize_frame del: funpow.simps)
  have "length p \<le> 500 * ?m" by arith
  then have whole: "concat (map hdr_payload ?ts) = p"
    by (simp add: payloads_sent concat_chunks)
  have big: "length p = 1300 \<longrightarrow> map hdr_transferSize ?ts = [500, 500, 300]"
    by (simp add: sizes_sent upt_3)
  have len: "length ?ts = ?m"
    by (rule length_sent)
  have res: "fst (Write d p) = (length p, None)"
    by (simp add: W)
  show ?thesis
    by (rule exI [of _ ?ts]) (intro conjI log len each whole big res)
qed

text \<open>Claim C5 at a payload of 1300 bytes on the default device.\<close>

theorem Write_chunking_witness:
  "map hdr_transferSize (writeLog (usbDevice (snd (Write (defaultDevice quietUSB) (replicate 1300 7)))))
     = [500, 500, 300]
   \<and> fst (Write (defaultDevice quietUSB) (replicate 1300 7)) = (1300, None)"
  using Write_chunking [of "replicate 1300 7" "defaultDevice quietUSB"]
  by (auto simp: defaultDevice_def quietUSB_def)

text \<open>
  Claim C6: when the transport accepts the first \<open>i\<close> writes of a \<open>Write\<close> call and fails
  the next with \<open>e\<close>, that next write being for a chunk of the payload, \<open>Write\<close> returns
  \<open>500 i\<close> and \<open>e\<close> itself. The \<open>i\<close> completed transfers carry exactly the first
  \<open>500 i\<close> bytes of the payload, and the failing write is the last call of the transport.
\<close>

theorem Write_transport_error:
  assumes "\<forall>k<i. writeRes (usbDevice d) (length (writeLog (usbDevice d)) + k) = None"
    and "writeRes (usbDevice d) (length (writeLog (usbDevice d)) + i) = Some e"
    and "500 * i < length p"
  shows "fst (Write d p) = (500 * i, Some e)
         \<and> (\<exists>ts. writeLog (usbDevice (snd (Write d p))) = writeLog (usbDevice d) @ ts
                \<and> length ts = Suc i
                \<and> concat (map hdr_payload (take i ts)) = take (500 * i) p
                \<and> length (take (500 * i) p) = 500 * i)"
proof -
  let ?ts = "sent d p 0 (Suc i)"
  have W: "Write d p = ((500 * i, Some e), after_writes d p 0 (Suc i))"
    by (rule Write_rejected_at [OF assms])
  have log: "writeLog (usbDevice (snd (Write d p))) = writeLog (usbDevice d) @ ?ts"
    by (simp add: W after_writes_def)
  have len: "length ?ts = Suc i"
    by (rule length_sent)
  have "take i ?ts = sent d p 0 i"
    by (simp add: sent_def take_map del: funpow.simps)
  then have carried: "concat (map hdr_payload (take i ?ts)) = take (500 * i) p"
    by (simp add: payloads_sent concat_chunks)
  have bytes: "length (take (500 * i) p) = 500 * i"
    using assms(3) by simp
  have res: "fst (Write d p) = (500 * i, Some e)"
    by (simp add: W)
  have "\<exists>ts. writeLog (usbDevice (snd (Write d p))) = writeLog (usbDevice d) @ ts
                \<and> length ts = Suc i
                \<and> concat (map hdr_payload (take i ts)) = take (500 * i) p
                \<and> length (take (500 * i) p) = 500 * i"
    by (rule exI [of _ ?ts]) (intro conjI log len carried bytes)
  with res show ?thesis by (rule conjI)
qed

text \<open>Claim C6 at a 1300-byte payload whose third transfer the transport rejects.\<close>

theorem Write_transport_error_witness:
  "fst (Write (defaultDevice (rejectingUSB 2 (TransportError ''stall''))) (replicate 1300 7))
     = (1000, Some (TransportError ''stall''))
   \<and> length (writeLog (usbDevice (snd
        (Write (defaultDevice (rejectingUSB 2 (TransportError ''stall''))) (replicate 1300 7))))) = 3"
  using Write_transport_error [of 2 "defaultDevice (rejectingUSB 2 (TransportError ''stall''))"
      "TransportError ''stall''" "replicate 1300 7"]
  by (auto simp: defaultDevice_def rejectingUSB_def quietUSB_def)

text \<open>
  Claim C3 against the code: \<open>Write\<close> passes the constant \<open>true\<close> as the end-of-message
  argument of \<open>encodeBulkOutHeader\<close> for every chunk. A payload of 501 bytes goes out as
  two transfers; the first, which is not the last, starts with the header encoded with
  end-of-message \<open>true\<close>, and the end-of-message bit is set in the header of both.
\<close>

theorem Write_EOM_on_every_chunk:
  "length (writeLog (usbDevice (snd (Write (defaultDevice quietUSB) (replicate 501 7))))) = 2
   \<and> take 12 (writeLog (usbDevice (snd (Write (defaultDevice quietUSB) (replicate 501 7)))) ! 0)
       = encodeBulkOutHeader 2 500 True
   \<and> map hdr_EOM (writeLog (usbDevice (snd (Write (defaultDevice quietUSB) (replicate 501 7)))))
       = [True, True]"
proof -
  let ?d = "defaultDevice quietUSB"
  let ?p = "replicate 501 (7 :: byte)"
  have m: "(length ?p + 499) div 500 = 2" by simp
  have "\<forall>k<(length ?p + 499) div 500.
          writeRes (usbDevice ?d) (length (writeLog (usbDevice ?d)) + k) = None"
    by (simp add: defaultDevice_def quietUSB_def)
  then have "Write ?d ?p = ((length ?p, None), after_writes ?d ?p 0 ((length ?p + 499) div 500))"
    by (rule Write_all_accepted)
  then have log: "writeLog (usbDevice (snd (Write ?d ?p))) = sent ?d ?p 0 2"
    unfolding m by (simp add: after_writes_def defaultDevice_def quietUSB_def)
  have first: "sent ?d ?p 0 2 ! 0 = frame 2 (replicate 500 7)"
    by (simp add: nth_sent defaultDevice_def nextbTag_def)
  have "take 12 (frame 2 (replicate 500 7)) = encodeBulkOutHeader 2 500 True"
    by (simp add: frame_eq length_encodeBulkOutHeader)
  with first have hdr: "take 12 (sent ?d ?p 0 2 ! 0) = encodeBulkOutHeader 2 500 True"
    by simp
  have eom: "map hdr_EOM (sent ?d ?p 0 2) = [True, True]"
    by (simp add: sent_def upt_2 hdr_EOM_frame del: funpow.simps)
  show ?thesis
    unfolding log using hdr eom by (simp add: length_sent)
qed

section \<open>Properties of the read pipeline\<close>

lemma copy_go_Nil: "copy_go p [] = p"
  by (simp add: copy_go_def)

lemma tempSize_ge: "512 \<le> tempSize len"
proof (cases "(len + 12) mod 512 = 0")
  case True
  have "\<not> len + 12 < 512"
  proof
    assume "len + 12 < 512"
    then have "(len + 12) mod 512 = len + 12" by (rule mod_less)
    with True show False by simp
  qed
  with True show ?thesis
    by (simp add: tempSize_def usbtmcHeaderLen_def Let_def)
next
  case False
  have "(len + 12) mod 512 < 512" by simp
  with False show ?thesis
    by (simp add: tempSize_def usbtmcHeaderLen_def Let_def)
qed

lemma tempSize_unfold:
  "(if (len + usbtmcHeaderLen) mod 512 \<noteq> 0
    then len + usbtmcHeaderLen + (512 - (len + usbtmcHeaderLen) mod 512)
    else len + usbtmcHeaderLen) = tempSize len"
  unfolding tempSize_def Let_def ..

lemma readRemoveHeader_failed:
  assumes "snd (fst (usb_Read (usbDevice d) (replicate (tempSize (length p)) 0))) = Some e"
  shows "readRemoveHeader d p =
           ((0, 0, 0, Some e), p,
            d\<lparr>usbDevice := snd (snd (usb_Read (usbDevice d) (replicate (tempSize (length p)) 0)))\<rparr>)"
  unfolding readRemoveHeader_def Let_def tempSize_unfold
  by (simp add: assms)

lemma readRemoveHeader_short:
  assumes "snd (fst (usb_Read (usbDevice d) (replicate (tempSize (length p)) 0))) = None"
    and "fst (fst (usb_Read (usbDevice d) (replicate (tempSize (length p)) 0))) < 12"
  shows "readRemoveHeader d p =
           ((0, 0, 0, Some (ShortRead (fst (fst (usb_Read (usbDevice d) (replicate (tempSize (length p)) 0)))))), p,
            d\<lparr>usbDevice := snd (snd (usb_Read (usbDevice d) (replicate (tempSize (length p)) 0)))\<rparr>)"
  unfolding readRemoveHeader_def Let_def tempSize_unfold
  by (simp add: assms usbtmcHeaderLen_def)

lemma readRemoveHeader_header:
  assumes "snd (fst (usb_Read (usbDevice d) (replicate (tempSize (length p)) 0))) = None"
    and "12 \<le> fst (fst (usb_Read (usbDevice d) (replicate (tempSize (length p)) 0)))"
  shows "readRemoveHeader d p =
           ((fst (fst (usb_Read (usbDevice d) (replicate (tempSize (length p)) 0))) - 12,
             hdr_transferSize (fst (snd (usb_Read (usbDevice d) (replicate (tempSize (length p)) 0)))),
             fst (snd (usb_Read (usbDevice d) (replicate (tempSize (length p)) 0))) ! 8, None),
            copy_go p (take (fst (fst (usb_Read (usbDevice d) (replicate (tempSize (length p)) 0))) - 12)
                        (drop 12 (fst (snd (usb_Read (usbDevice d) (replicate (tempSize (length p)) 0)))))),
            d\<lparr>usbDevice := snd (snd (usb_Read (usbDevice d) (replicate (tempSize (length p)) 0)))\<rparr>)"
  unfolding readRemoveHeader_def Let_def tempSize_unfold
  using assms
  by (auto simp: usbtmcHeaderLen_def hdr_transferSize_def min_def copy_go_Nil)

lemma usb_Read_eq:
  assumes "readRes u (length (readLog u)) (length buf) = (n, bs, err)"
  shows "usb_Read u buf = ((n, err), copy_go buf bs, u\<lparr>readLog := readLog u @ [length buf]\<rparr>)"
  by (simp add: usb_Read_def assms)

lemma doRead_eq:
  "doRead d p useTermChar =
     (case writeRes (usbDevice d) (length (writeLog (usbDevice d))) of
        Some err \<Rightarrow> (Returns (0, Some err), p, after_request d (length p) useTermChar)
      | None \<Rightarrow> doRead_loop (after_request d (length p) useTermChar) p 0 0)"
  by (simp add: doRead_def Let_def usb_Write_def after_request_def request_header_def
      split: option.splits)

lemma doRead_loop_done:
  "length p \<le> pos \<Longrightarrow> doRead_loop d p pos t = (Returns (min pos t, None), p, d)"
  by (simp add: doRead_loop.simps)

lemma doRead_loop_first:
  assumes "readRemoveHeader d p = ((resp, T, a, e), q, d1)" and "0 < length p"
  shows "doRead_loop d p 0 t =
     (case e of
        Some x \<Rightarrow> (Returns (0, Some x), q, d1)
      | None \<Rightarrow>
          if resp = 0 then (Returns (0, None), q, d1)
          else if T \<le> resp then (Returns (T, None), q, d1)
          else doRead_loop d1 q resp T)"
  using assms
  by (subst doRead_loop.simps) (simp add: Let_def min_def split: option.splits)

lemma doRead_loop_next:
  assumes "readKeepHeader d (drop pos p) = ((n, e), q, d1)" and "0 < pos" and "pos < length p"
  shows "doRead_loop d p pos T =
     (if min (min n 100) (length p - pos) < pos then (Panics, take pos p @ q, d1)
      else
        (case e of
           Some x \<Rightarrow> (Returns (pos, Some x), take pos p @ q, d1)
         | None \<Rightarrow>
             if n = 0 then (Returns (min pos T, None), take pos p @ q, d1)
             else if T \<le> pos + n then (Returns (min (pos + n) T, None), take pos p @ q, d1)
             else doRead_loop d1 (take pos p @ q) (pos + n) T))"
  using assms
  by (subst doRead_loop.simps) (simp add: Let_def min_def split: option.splits)

text \<open>
  The first raw read in terms of what the transport answers: the error of
  \<open>readRemoveHeader\<close> depends on the transport's error and count only.
\<close>

lemma readRemoveHeader_eq:
  assumes "readRes (usbDevice d) (length (readLog (usbDevice d))) (tempSize (length p)) = (n, bs, err)"
  shows "readRemoveHeader d p =
     (case err of
        Some e \<Rightarrow> ((0, 0, 0, Some e), p, after_read d (tempSize (length p)))
      | None \<Rightarrow>
          if n < 12 then ((0, 0, 0, Some (ShortRead n)), p, after_read d (tempSize (length p)))
          else ((n - 12,
                 hdr_transferSize (copy_go (replicate (tempSize (length p)) 0) bs),
                 copy_go (replicate (tempSize (length p)) 0) bs ! 8, None),
                copy_go p (take (n - 12) (drop 12 (copy_go (replicate (tempSize (length p)) 0) bs))),
                after_read d (tempSize (length p))))"
proof -
  let ?temp = "replicate (tempSize (length p)) (0 :: byte)"
  have "readRes (usbDevice d) (length (readLog (usbDevice d))) (length ?temp) = (n, bs, err)"
    using assms by simp
  then have R: "usb_Read (usbDevice d) ?temp =
      ((n, err), copy_go ?temp bs,
       (usbDevice d)\<lparr>readLog := readLog (usbDevice d) @ [length ?temp]\<rparr>)"
    by (rule usb_Read_eq)
  show ?thesis
  proof (cases err)
    case (Some e)
    then show ?thesis
      using readRemoveHeader_failed [of d p e] R by (simp add: after_read_def)
  next
    case None
    show ?thesis
    proof (cases "n < 12")
      case True
      with None show ?thesis
        using readRemoveHeader_short [of d p] R by (simp add: after_read_def)
    next
      case False
      with None show ?thesis
        using readRemoveHeader_header [of d p] R by (simp add: after_read_def)
    qed
  qed
qed

lemma readKeepHeader_eq:
  assumes "readRes (usbDevice d) (length (readLog (usbDevice d))) (length q) = (n, bs, err)"
  shows "readKeepHeader d q = ((n, err), copy_go q bs, after_read d (length q))"
  using usb_Read_eq [OF assms] by (simp add: readKeepHeader_def Let_def after_read_def)

lemma after_request_usb [simp]:
  "readLog (usbDevice (after_request d len tc)) = readLog (usbDevice d)"
  "readRes (usbDevice (after_request d len tc)) = readRes (usbDevice d)"
  "writeRes (usbDevice (after_request d len tc)) = writeRes (usbDevice d)"
  "writeLog (usbDevice (after_request d len tc)) = writeLog (usbDevice d) @ [request_header d len tc]"
  "bTag (after_request d len tc) = nextbTag (bTag d)"
  by (simp_all add: after_request_def)

lemma after_read_usb [simp]:
  "readLog (usbDevice (after_read d len)) = readLog (usbDevice d) @ [len]"
  "readRes (usbDevice (after_read d len)) = readRes (usbDevice d)"
  "writeRes (usbDevice (after_read d len)) = writeRes (usbDevice d)"
  "writeLog (usbDevice (after_read d len)) = writeLog (usbDevice d)"
  "bTag (after_read d len) = bTag d"
  by (simp_all add: after_read_def)

lemma hdr_transferSize_request: "hdr_transferSize (request_header d 0 tc) = 0"
proof -
  have "take 4 (drop 4 (request_header d 0 tc)) = LittleEndian_PutUint32 0 @ []"
    by (simp add: request_header_def encodeMsgInBulkOutHeader_def LittleEndian_PutUint32_def)
  then show ?thesis
    unfolding hdr_transferSize_def by (simp only: Uint32_PutUint32) simp
qed

section \<open>Claims about the read operation\<close>

text \<open>
  Claim C10: \<open>doRead\<close> on an empty buffer sends one IN-request header of 12 bytes that
  asks for 0 bytes, under the next tag, and makes no raw read. It returns 0 bytes together
  with the error of that one write, hence 0 bytes and no error when the transport accepts
  the header.
\<close>

theorem doRead_empty_buffer:
  "writeLog (usbDevice (snd (snd (doRead d [] tc))))
     = writeLog (usbDevice d) @ [request_header d 0 tc]
   \<and> length (request_header d 0 tc) = 12
   \<and> hdr_transferSize (request_header d 0 tc) = 0
   \<and> bTag (snd (snd (doRead d [] tc))) = nextbTag (bTag d)
   \<and> readLog (usbDevice (snd (snd (doRead d [] tc)))) = readLog (usbDevice d)
   \<and> fst (doRead d [] tc)
       = Returns (0, writeRes (usbDevice d) (length (writeLog (usbDevice d))))
   \<and> (writeRes (usbDevice d) (length (writeLog (usbDevice d))) = None
        \<longrightarrow> fst (doRead d [] tc) = Returns (0, None))"
proof -
  have len: "length (request_header d 0 tc) = 12"
    by (simp add: request_header_def encodeMsgInBulkOutHeader_def LittleEndian_PutUint32_def)
  have D: "doRead d [] tc =
      (Returns (0, writeRes (usbDevice d) (length (writeLog (usbDevice d)))), [],
       after_request d 0 tc)"
    by (simp add: doRead_eq doRead_loop_done split: option.splits)
  show ?thesis
    unfolding D using len hdr_transferSize_request by simp
qed

text \<open>Claim C10 on the default device over a transport that accepts the header.\<close>

theorem doRead_empty_buffer_witness:
  "writeRes (usbDevice (defaultDevice quietUSB))
     (length (writeLog (usbDevice (defaultDevice quietUSB)))) = None
   \<and> fst (doRead (defaultDevice quietUSB) [] True) = Returns (0, None)
   \<and> readLog (usbDevice (snd (snd (doRead (defaultDevice quietUSB) [] True)))) = []
   \<and> length (writeLog (usbDevice (snd (snd (doRead (defaultDevice quietUSB) [] True))))) = 1
   \<and> bTag (snd (snd (doRead (defaultDevice quietUSB) [] True))) = 2"
  using doRead_empty_buffer [of "defaultDevice quietUSB" True]
  by (simp add: defaultDevice_def quietUSB_def nextbTag_def)

text \<open>
  Claim C7: when the header went out, the buffer is not empty and the first raw read
  reports \<open>n < 12\<close> bytes without an error of its own, \<open>doRead\<close> returns 0 bytes and the
  error "short n-byte read: no space for header"; the caller's buffer is untouched and
  that raw read is the only one.
\<close>

theorem doRead_short_first_read:
  assumes "writeRes (usbDevice d) (length (writeLog (usbDevice d))) = None"
    and "0 < length p"
    and "readRes (usbDevice d) (length (readLog (usbDevice d))) (tempSize (length p)) = (n, bs, None)"
    and "n < 12"
  shows "fst (doRead d p tc) = Returns (0, Some (ShortRead n))
         \<and> fst (snd (doRead d p tc)) = p
         \<and> readLog (usbDevice (snd (snd (doRead d p tc))))
             = readLog (usbDevice d) @ [tempSize (length p)]"
proof -
  let ?d2 = "after_request d (length p) tc"
  have "readRes (usbDevice ?d2) (length (readLog (usbDevice ?d2))) (tempSize (length p)) = (n, bs, None)"
    using assms(3) by simp
  then have "readRemoveHeader ?d2 p =
      ((0, 0, 0, Some (ShortRead n)), p, after_read ?d2 (tempSize (length p)))"
    using assms(4) by (simp add: readRemoveHeader_eq)
  then have "doRead_loop ?d2 p 0 0 =
      (Returns (0, Some (ShortRead n)), p, after_read ?d2 (tempSize (length p)))"
    using assms(2) by (simp add: doRead_loop_first)
  then show ?thesis
    using assms(1) by (simp add: doRead_eq)
qed

text \<open>Claim C7 on a 4-byte buffer when the first raw read delivers 5 bytes.\<close>

theorem doRead_short_first_read_witness:
  "fst (doRead (defaultDevice shortUSB) [0, 0, 0, 0] True) = Returns (0, Some (ShortRead 5))
   \<and> fst (snd (doRead (defaultDevice shortUSB) [0, 0, 0, 0] True)) = [0, 0, 0, 0]"
  using doRead_short_first_read [of "defaultDevice shortUSB" "[0, 0, 0, 0]" 5 "[2, 2, 0xFD, 0, 9]" True]
  by (simp add: defaultDevice_def shortUSB_def quietUSB_def)

text \<open>
  In a continuation iteration (\<open>pos > 0\<close>) the debug dump slices \<open>p[pos:dumpLen]\<close> with
  \<open>dumpLen = min(100, resp, len(p) - pos)\<close>, before the error and the count of the read
  are looked at. The slice is out of range, and the call panics, whenever the read
  delivers nothing or the position is beyond 100.
\<close>

lemma doRead_loop_zero_read_panics:
  assumes "0 < pos" and "pos < length p"
    and "fst (readRes (usbDevice d) (length (readLog (usbDevice d))) (length p - pos)) = 0"
  shows "fst (doRead_loop d p pos T) = Panics"
proof -
  obtain n bs err where
    R: "readRes (usbDevice d) (length (readLog (usbDevice d))) (length (drop pos p)) = (n, bs, err)"
    by (cases "readRes (usbDevice d) (length (readLog (usbDevice d))) (length (drop pos p))")
  with assms(3) have n: "n = 0" by simp
  have "readKeepHeader d (drop pos p) = ((n, err), copy_go (drop pos p) bs, after_read d (length (drop pos p)))"
    by (rule readKeepHeader_eq [OF R])
  then show ?thesis
    using assms(1,2) n by (simp add: doRead_loop_next)
qed

lemma doRead_loop_far_panics:
  assumes "100 < pos" and "pos < length p"
  shows "fst (doRead_loop d p pos T) = Panics"
proof -
  obtain n bs err where
    R: "readRes (usbDevice d) (length (readLog (usbDevice d))) (length (drop pos p)) = (n, bs, err)"
    by (cases "readRes (usbDevice d) (length (readLog (usbDevice d))) (length (drop pos p))")
  have "readKeepHeader d (drop pos p) = ((n, err), copy_go (drop pos p) bs, after_read d (length (drop pos p)))"
    by (rule readKeepHeader_eq [OF R])
  moreover have "min (min n 100) (length p - pos) < pos"
    using assms(1) by (simp add: min_def)
  ultimately show ?thesis
    using assms by (simp add: doRead_loop_next)
qed

text \<open>
  Claim C1, as the code has it: \<open>readRemoveHeader\<close> does not look at the tag and
  tag-inverse bytes of the header it receives. Whatever the bytes delivered, its error is
  the transport's error when there is one, the short-read error when fewer than 12 bytes
  arrived, and none otherwise.
\<close>

theorem readRemoveHeader_error:
  assumes "readRes (usbDevice d) (length (readLog (usbDevice d))) (tempSize (length p)) = (n, bs, err)"
  shows "snd (snd (snd (fst (readRemoveHeader d p))))
           = (case err of Some e \<Rightarrow> Some e
              | None \<Rightarrow> if n < 12 then Some (ShortRead n) else None)"
  by (simp add: readRemoveHeader_eq [OF assms] split: option.splits)

text \<open>Claim C1, amended, at a header whose tag inverse is wrong: no error.\<close>

theorem readRemoveHeader_error_witness:
  "snd (snd (snd (fst (readRemoveHeader (defaultDevice badInverseUSB) [0, 0, 0, 0])))) = None"
  using readRemoveHeader_error [of "defaultDevice badInverseUSB" "[0, 0, 0, 0]" 16
      "[2, 2, 0, 0, 4, 0, 0, 0, 1, 0, 0, 0, 0xDE, 0xAD, 0xBE, 0xEF]" None]
  by (simp add: defaultDevice_def badInverseUSB_def quietUSB_def)

text \<open>
  Claim C1 as stated fails: the first transfer carries tag 2 and tag inverse 0, which is
  not \<open>0xFF - 2\<close>, and \<open>doRead\<close> returns 4 bytes and no error, with the payload copied
  into the caller's buffer.
\<close>

theorem doRead_accepts_bad_tag_inverse:
  "fst (snd (readRes badInverseUSB 0 512)) ! 2
     \<noteq> invertbTag (fst (snd (readRes badInverseUSB 0 512)) ! 1)
   \<and> fst (doRead (defaultDevice badInverseUSB) [0, 0, 0, 0] True) = Returns (4, None)
   \<and> fst (snd (doRead (defaultDevice badInverseUSB) [0, 0, 0, 0] True)) = [0xDE, 0xAD, 0xBE, 0xEF]"
proof -
  let ?d = "defaultDevice badInverseUSB"
  let ?p = "[0, 0, 0, 0] :: byte list"
  let ?bs = "[2, 2, 0, 0, 4, 0, 0, 0, 1, 0, 0, 0, 0xDE, 0xAD, 0xBE, 0xEF] :: byte list"
  let ?d2 = "after_request ?d (length ?p) True"
  have w: "writeRes (usbDevice ?d) (length (writeLog (usbDevice ?d))) = None"
    by (simp add: defaultDevice_def badInverseUSB_def quietUSB_def)
  have r: "readRes (usbDevice ?d2) (length (readLog (usbDevice ?d2))) (tempSize (length ?p)) = (16, ?bs, None)"
    by (simp add: defaultDevice_def badInverseUSB_def quietUSB_def)
  have ts: "tempSize (length ?p) = 512"
    by (simp add: tempSize_def usbtmcHeaderLen_def)
  have T: "hdr_transferSize (copy_go (replicate 512 0) ?bs) = 4"
    by (simp add: hdr_transferSize_def copy_go_def LittleEndian_Uint32_def)
  have q: "copy_go ?p (take (16 - 12) (drop 12 (copy_go (replicate 512 0) ?bs)))
             = [0xDE, 0xAD, 0xBE, 0xEF]"
    by (simp add: copy_go_def)
  have "readRemoveHeader ?d2 ?p =
      ((4, 4, copy_go (replicate 512 0) ?bs ! 8, None),
       [0xDE, 0xAD, 0xBE, 0xEF], after_read ?d2 512)"
    unfolding readRemoveHeader_eq [OF r, unfolded ts] T q by simp
  then have "doRead_loop ?d2 ?p 0 0 =
      (Returns (4, None), [0xDE, 0xAD, 0xBE, 0xEF], after_read ?d2 512)"
    by (simp add: doRead_loop_first)
  then have "doRead ?d ?p True =
      (Returns (4, None), [0xDE, 0xAD, 0xBE, 0xEF], after_read ?d2 512)"
    using w by (simp add: doRead_eq)
  then show ?thesis
    by (simp add: badInverseUSB_def quietUSB_def invertbTag_def)
qed

text \<open>
  Claim C8 against the code: on a buffer of 8 bytes, the first transfer declares 8 bytes
  and delivers 4, and the next raw read delivers 0 bytes without error. The claim asks
  for 4 bytes and no error; the call panics in the debug dump (\<open>p[4:0]\<close>) before it
  reaches the test \<open>resp == 0\<close>.
\<close>

theorem doRead_zero_length_continuation_panics:
  "fst (doRead (defaultDevice stallingUSB) [0, 0, 0, 0, 0, 0, 0, 0] True) = Panics"
proof -
  let ?d = "defaultDevice stallingUSB"
  let ?p = "[0, 0, 0, 0, 0, 0, 0, 0] :: byte list"
  let ?bs = "[2, 2, 0xFD, 0, 8, 0, 0, 0, 1, 0, 0, 0, 1, 2, 3, 4] :: byte list"
  let ?d2 = "after_request ?d (length ?p) True"
  let ?d3 = "after_read ?d2 512"
  let ?q = "[1, 2, 3, 4, 0, 0, 0, 0] :: byte list"
  have w: "writeRes (usbDevice ?d) (length (writeLog (usbDevice ?d))) = None"
    by (simp add: defaultDevice_def stallingUSB_def quietUSB_def)
  have r: "readRes (usbDevice ?d2) (length (readLog (usbDevice ?d2))) (tempSize (length ?p)) = (16, ?bs, None)"
    by (simp add: defaultDevice_def stallingUSB_def quietUSB_def)
  have ts: "tempSize (length ?p) = 512"
    by (simp add: tempSize_def usbtmcHeaderLen_def)
  have T: "hdr_transferSize (copy_go (replicate 512 0) ?bs) = 8"
    by (simp add: hdr_transferSize_def copy_go_def LittleEndian_Uint32_def)
  have q: "copy_go ?p (take (16 - 12) (drop 12 (copy_go (replicate 512 0) ?bs))) = ?q"
    by (simp add: copy_go_def)
  have "readRemoveHeader ?d2 ?p =
      ((4, 8, copy_go (replicate 512 0) ?bs ! 8, None), ?q, ?d3)"
    unfolding readRemoveHeader_eq [OF r, unfolded ts] T q by simp
  then have first: "doRead_loop ?d2 ?p 0 0 = doRead_loop ?d3 ?q 4 8"
    by (simp add: doRead_loop_first)
  have "fst (readRes (usbDevice ?d3) (length (readLog (usbDevice ?d3))) (length ?q - 4)) = 0"
    by (simp add: defaultDevice_def stallingUSB_def quietUSB_def)
  then have "fst (doRead_loop ?d3 ?q 4 8) = Panics"
    by (intro doRead_loop_zero_read_panics) simp_all
  with first w show ?thesis
    by (simp add: doRead_eq)
qed

text \<open>
  Claim C2 against the code: on a buffer of 1000 bytes, the device declares 1000 bytes and
  delivers them in two raw reads of 500 payload bytes each. The claim asks for 1000 bytes;
  the call panics in the debug dump of the second iteration (\<open>p[500:100]\<close>).
\<close>

theorem doRead_two_transfers_panics:
  "fst (doRead (defaultDevice twoPacketUSB) (replicate 1000 0) True) = Panics"
proof -
  let ?d = "defaultDevice twoPacketUSB"
  let ?p = "replicate 1000 0 :: byte list"
  let ?bs = "[2, 2, 0xFD, 0, 0xE8, 0x03, 0, 0, 1, 0, 0, 0] @ replicate 500 7 :: byte list"
  let ?d2 = "after_request ?d (length ?p) True"
  let ?d3 = "after_read ?d2 1024"
  let ?q = "copy_go ?p (take (512 - 12) (drop 12 (copy_go (replicate 1024 0) ?bs)))"
  have w: "writeRes (usbDevice ?d) (length (writeLog (usbDevice ?d))) = None"
    by (simp add: defaultDevice_def twoPacketUSB_def quietUSB_def)
  have r: "readRes (usbDevice ?d2) (length (readLog (usbDevice ?d2))) (tempSize (length ?p)) = (512, ?bs, None)"
    by (simp add: defaultDevice_def twoPacketUSB_def quietUSB_def)
  have ts: "tempSize (length ?p) = 1024"
    by (simp add: tempSize_def usbtmcHeaderLen_def)
  have T: "hdr_transferSize (copy_go (replicate 1024 0) ?bs) = 1000"
    by (simp add: hdr_transferSize_def copy_go_def LittleEndian_Uint32_def)
  have "readRemoveHeader ?d2 ?p =
      ((500, 1000, copy_go (replicate 1024 0) ?bs ! 8, None), ?q, ?d3)"
    unfolding readRemoveHeader_eq [OF r, unfolded ts] T by simp
  then have first: "doRead_loop ?d2 ?p 0 0 = doRead_loop ?d3 ?q 500 1000"
    by (simp add: doRead_loop_first)
  have "length ?q = 1000"
    by (simp only: length_copy_go length_replicate)
  then have "fst (doRead_loop ?d3 ?q 500 1000) = Panics"
    by (intro doRead_loop_far_panics) simp_all
  with first w show ?thesis
    by (simp add: doRead_eq)
qed

text \<open>
  A second way the count goes wrong: \<open>readRemoveHeader\<close> returns the number of payload
  bytes the transport delivered, not the number copied. When the device declares and
  delivers 8 bytes against a buffer of 4, \<open>doRead\<close> reports 8 bytes read, although only 4
  were stored.
\<close>

lemma doRead_reports_more_than_buffer:
  "fst (doRead (defaultDevice eagerUSB) [0, 0, 0, 0] True) = Returns (8, None)
   \<and> fst (snd (doRead (defaultDevice eagerUSB) [0, 0, 0, 0] True)) = [1, 2, 3, 4]"
proof -
  let ?d = "defaultDevice eagerUSB"
  let ?p = "[0, 0, 0, 0] :: byte list"
  let ?bs = "[2, 2, 0xFD, 0, 8, 0, 0, 0, 1, 0, 0, 0, 1, 2, 3, 4, 5, 6, 7, 8] :: byte list"
  let ?d2 = "after_request ?d (length ?p) True"
  let ?d3 = "after_read ?d2 512"
  have w: "writeRes (usbDevice ?d) (length (writeLog (usbDevice ?d))) = None"
    by (simp add: defaultDevice_def eagerUSB_def quietUSB_def)
  have r: "readRes (usbDevice ?d2) (length (readLog (usbDevice ?d2))) (tempSize (length ?p)) = (20, ?bs, None)"
    by (simp add: defaultDevice_def eagerUSB_def quietUSB_def)
  have ts: "tempSize (length ?p) = 512"
    by (simp add: tempSize_def usbtmcHeaderLen_def)
  have T: "hdr_transferSize (copy_go (replicate 512 0) ?bs) = 8"
    by (simp add: hdr_transferSize_def copy_go_def LittleEndian_Uint32_def)
  have q: "copy_go ?p (take (20 - 12) (drop 12 (copy_go (replicate 512 0) ?bs)))
             = [1, 2, 3, 4]"
    by (simp add: copy_go_def)
  have "readRemoveHeader ?d2 ?p =
      ((8, 8, copy_go (replicate 512 0) ?bs ! 8, None), [1, 2, 3, 4], ?d3)"
    unfolding readRemoveHeader_eq [OF r, unfolded ts] T q by simp
  then have "doRead_loop ?d2 ?p 0 0 = (Returns (8, None), [1, 2, 3, 4], ?d3)"
    by (simp add: doRead_loop_first)
  with w show ?thesis
    by (simp add: doRead_eq)
qed

text \<open>
  Whatever the transport does, the caller's buffer keeps its length through \<open>doRead\<close>,
  so nothing is stored past \<open>len(p)\<close>.
\<close>

lemma doRead_loop_length: "length (fst (snd (doRead_loop d p pos T))) = length p"
proof (induction "length p - pos" arbitrary: d p pos T rule: less_induct)
  case less
  show ?case
  proof (cases "pos < length p")
    case False
    then show ?thesis by (simp add: doRead_loop_done)
  next
    case inside: True
    show ?thesis
    proof (cases "pos = 0")
      case True
      obtain resp T1 a e q d1 where R: "readRemoveHeader d p = ((resp, T1, a, e), q, d1)"
        by (metis prod.exhaust)
      have lq: "length q = length p"
        using readRemoveHeader_length [of d p] R by simp
      have step: "doRead_loop d p 0 T =
         (case e of
            Some x \<Rightarrow> (Returns (0, Some x), q, d1)
          | None \<Rightarrow>
              if resp = 0 then (Returns (0, None), q, d1)
              else if T1 \<le> resp then (Returns (T1, None), q, d1)
              else doRead_loop d1 q resp T1)"
        using inside True by (intro doRead_loop_first [OF R]) simp
      have "resp \<noteq> 0 \<Longrightarrow> length (fst (snd (doRead_loop d1 q resp T1))) = length q"
        using inside True lq by (intro less) simp
      with step lq True show ?thesis
        by (simp split: option.splits)
    next
      case False
      obtain n e q d1 where R: "readKeepHeader d (drop pos p) = ((n, e), q, d1)"
        by (metis prod.exhaust)
      define q1 where "q1 = take pos p @ q"
      have lq: "length q1 = length p"
        using readKeepHeader_length [of d "drop pos p"] R inside by (simp add: q1_def)
      have step: "doRead_loop d p pos T =
         (if min (min n 100) (length p - pos) < pos then (Panics, q1, d1)
          else
            (case e of
               Some x \<Rightarrow> (Returns (pos, Some x), q1, d1)
             | None \<Rightarrow>
                 if n = 0 then (Returns (min pos T, None), q1, d1)
                 else if T \<le> pos + n then (Returns (min (pos + n) T, None), q1, d1)
                 else doRead_loop d1 q1 (pos + n) T))"
        unfolding q1_def using inside False by (intro doRead_loop_next [OF R]) simp_all
      have "n \<noteq> 0 \<Longrightarrow> length (fst (snd (doRead_loop d1 q1 (pos + n) T))) = length q1"
        using inside lq by (intro less) simp
      with step lq show ?thesis
        by (simp split: option.splits)
    qed
  qed
qed

lemma doRead_buffer_length: "length (fst (snd (doRead d p tc))) = length p"
  by (simp add: doRead_eq doRead_loop_length split: option.splits)

text \<open>
  A response that arrives whole in the first transfer (the header declares no more than
  the payload bytes that follow it, padding included) and fits the caller's buffer:
  \<open>doRead\<close> returns the declared size, which is \<open>min(T, len(p))\<close>, after a single raw
  read.
\<close>

lemma doRead_single_transfer:
  assumes "writeRes (usbDevice d) (length (writeLog (usbDevice d))) = None"
    and "0 < length p"
    and "readRes (usbDevice d) (length (readLog (usbDevice d))) (tempSize (length p)) = (n, bs, None)"
    and "12 < n"
    and "T = hdr_transferSize (copy_go (replicate (tempSize (length p)) 0) bs)"
    and "T \<le> n - 12" and "T \<le> length p"
  shows "fst (doRead d p tc) = Returns (min T (length p), None)
         \<and> readLog (usbDevice (snd (snd (doRead d p tc))))
             = readLog (usbDevice d) @ [tempSize (length p)]"
proof -
  let ?d2 = "after_request d (length p) tc"
  let ?temp = "copy_go (replicate (tempSize (length p)) 0) bs"
  have "readRes (usbDevice ?d2) (length (readLog (usbDevice ?d2))) (tempSize (length p)) = (n, bs, None)"
    using assms(3) by simp
  then have "readRemoveHeader ?d2 p =
      ((n - 12, T, ?temp ! 8, None), copy_go p (take (n - 12) (drop 12 ?temp)),
       after_read ?d2 (tempSize (length p)))"
    using assms(4,5) by (simp add: readRemoveHeader_eq)
  then have "doRead_loop ?d2 p 0 0 =
      (Returns (T, None), copy_go p (take (n - 12) (drop 12 ?temp)),
       after_read ?d2 (tempSize (length p)))"
    using assms(2,4,6) by (simp add: doRead_loop_first)
  then show ?thesis
    using assms(1,7) by (simp add: doRead_eq min_def)
qed

section \<open>Properties of TrimSpace and Command\<close>

lemma runeWidth_0:
  assumes "[] \<notin> set ws" and "runeWidth ws s = 0"
  shows "\<forall>w\<in>set ws. \<not> prefix w s"
proof (cases "find (\<lambda>w. prefix w s) ws")
  case None
  then show ?thesis by (simp add: find_None_iff)
next
  case (Some w)
  then have "w \<in> set ws" by (auto simp: find_Some_iff)
  moreover from Some assms(2) have "w = []" by (simp add: runeWidth_def)
  ultimately show ?thesis using assms(1) by simp
qed

lemma runeWidth_pos:
  assumes "runeWidth ws s \<noteq> 0"
  shows "\<exists>w\<in>set ws. w @ drop (runeWidth ws s) s = s"
proof (cases "find (\<lambda>w. prefix w s) ws")
  case None
  with assms show ?thesis by (simp add: runeWidth_def)
next
  case (Some w)
  then have "w \<in> set ws" and "prefix w s" by (auto simp: find_Some_iff)
  moreover from Some have "runeWidth ws s = length w" by (simp add: runeWidth_def)
  ultimately show ?thesis by (auto simp: prefix_def)
qed

lemma trimPrefix_removes:
  "\<exists>ls. set ls \<subseteq> set ws \<and> s = concat ls @ trimPrefix ws s"
proof (induction ws s rule: trimPrefix.induct)
  case (1 ws s)
  show ?case
  proof (cases "s = [] \<or> runeWidth ws s = 0")
    case True
    then have "trimPrefix ws s = s" by (subst trimPrefix.simps) simp
    then have "set [] \<subseteq> set ws \<and> s = concat [] @ trimPrefix ws s" by simp
    then show ?thesis by (rule exI)
  next
    case False
    then have "\<exists>ls. set ls \<subseteq> set ws \<and>
        drop (runeWidth ws s) s = concat ls @ trimPrefix ws (drop (runeWidth ws s) s)"
      by (rule "1.IH")
    then obtain ls where ls: "set ls \<subseteq> set ws"
      "drop (runeWidth ws s) s = concat ls @ trimPrefix ws (drop (runeWidth ws s) s)"
      by (elim exE conjE)
    from False obtain w where w: "w \<in> set ws" "w @ drop (runeWidth ws s) s = s"
      using runeWidth_pos by blast
    from False have t: "trimPrefix ws s = trimPrefix ws (drop (runeWidth ws s) s)"
      by (subst trimPrefix.simps) simp
    have "concat (w # ls) @ trimPrefix ws s
            = w @ (concat ls @ trimPrefix ws (drop (runeWidth ws s) s))"
      by (simp add: t)
    also have "\<dots> = w @ drop (runeWidth ws s) s"
      by (simp only: ls(2) [symmetric])
    also have "\<dots> = s"
      by (rule w(2))
    finally have "s = concat (w # ls) @ trimPrefix ws s" by (rule sym)
    moreover have "set (w # ls) \<subseteq> set ws" using w(1) ls(1) by simp
    ultimately have "set (w # ls) \<subseteq> set ws \<and> s = concat (w # ls) @ trimPrefix ws s"
      by simp
    then show ?thesis by (rule exI)
  qed
qed

lemma trimPrefix_clean:
  assumes "[] \<notin> set ws"
  shows "\<forall>w\<in>set ws. \<not> prefix w (trimPrefix ws s)"
  using assms
proof (induction ws s rule: trimPrefix.induct)
  case (1 ws s)
  show ?case
  proof (cases "s = [] \<or> runeWidth ws s = 0")
    case True
    then have t: "trimPrefix ws s = s" by (subst trimPrefix.simps) simp
    show ?thesis
    proof (cases "s = []")
      case True
      with t "1.prems" show ?thesis by auto
    next
      case False
      with True have "runeWidth ws s = 0" by simp
      with t "1.prems" show ?thesis by (simp add: runeWidth_0)
    qed
  next
    case False
    then have "trimPrefix ws s = trimPrefix ws (drop (runeWidth ws s) s)"
      by (subst trimPrefix.simps) simp
    with False "1.IH" "1.prems" show ?thesis by simp
  qed
qed

lemma unicodeSpace_nonempty: "[] \<notin> set unicodeSpace"
  by (simp add: unicodeSpace_def)

lemma TrimSpace_removes:
  "\<exists>ls rs. set ls \<subseteq> set unicodeSpace \<and> set rs \<subseteq> set unicodeSpace
           \<and> s = concat ls @ TrimSpace s @ concat rs"
proof -
  let ?t = "trimPrefix unicodeSpace s"
  obtain ls where ls: "set ls \<subseteq> set unicodeSpace" "s = concat ls @ ?t"
    using trimPrefix_removes by blast
  obtain rs where rs: "set rs \<subseteq> set (map rev unicodeSpace)"
    "rev ?t = concat rs @ trimPrefix (map rev unicodeSpace) (rev ?t)"
    using trimPrefix_removes by blast
  have "rev (rev ?t) = rev (concat rs @ trimPrefix (map rev unicodeSpace) (rev ?t))"
    using rs(2) by simp
  then have t: "?t = TrimSpace s @ concat (map rev (rev rs))"
    by (simp add: TrimSpace_def rev_concat)
  have "set (map rev (rev rs)) \<subseteq> set unicodeSpace"
    using rs(1) by auto
  with ls t show ?thesis by metis
qed

lemma TrimSpace_clean:
  "\<forall>w\<in>set unicodeSpace. \<not> prefix w (TrimSpace s) \<and> \<not> suffix w (TrimSpace s)"
proof
  fix w
  assume w: "w \<in> set unicodeSpace"
  let ?t = "trimPrefix unicodeSpace s"
  let ?u = "trimPrefix (map rev unicodeSpace) (rev ?t)"
  have "[] \<notin> set (map rev unicodeSpace)"
    using unicodeSpace_nonempty by auto
  then have "\<forall>v\<in>set (map rev unicodeSpace). \<not> prefix v ?u"
    by (rule trimPrefix_clean)
  with w have "\<not> prefix (rev w) ?u" by simp
  then have right: "\<not> suffix w (TrimSpace s)"
    by (simp add: TrimSpace_def suffix_to_prefix)
  obtain rs where "rev ?t = concat rs @ ?u"
    using trimPrefix_removes by blast
  then have "rev (rev ?t) = rev (concat rs @ ?u)" by simp
  then have "?t = TrimSpace s @ rev (concat rs)"
    by (simp add: TrimSpace_def)
  then have "prefix (TrimSpace s) ?t"
    by (metis prefixI)
  moreover have "\<not> prefix w ?t"
    using trimPrefix_clean [OF unicodeSpace_nonempty] w by blast
  ultimately have left: "\<not> prefix w (TrimSpace s)"
    using prefix_order.trans by blast
  from left right show "\<not> prefix w (TrimSpace s) \<and> \<not> suffix w (TrimSpace s)" ..
qed

lemma Write_payloads:
  assumes "\<forall>k. writeRes (usbDevice d) k = None"
  shows "fst (Write d p) = (length p, None)
         \<and> concat (map hdr_payload (drop (length (writeLog (usbDevice d)))
                                       (writeLog (usbDevice (snd (Write d p)))))) = p"
proof -
  let ?m = "(length p + 499) div 500"
  have W: "Write d p = ((length p, None), after_writes d p 0 ?m)"
    using assms by (intro Write_all_accepted) simp
  have "length p \<le> 500 * ?m" by arith
  then have "concat (map hdr_payload (sent d p 0 ?m)) = p"
    by (simp add: payloads_sent concat_chunks)
  then show ?thesis
    by (simp add: W after_writes_def)
qed

section \<open>Claims about Command\<close>

text \<open>
  Claim C9, as the code has it: \<open>Command\<close> makes one call of \<open>Write\<close>, with the formatted
  command trimmed by \<open>strings.TrimSpace\<close> and followed by one newline, and returns the
  error of that call. The trimmed command is the command without a run of white space at
  its start and a run of white space at its end, and it neither starts nor ends with
  white space: leading white space is removed as well as trailing. When the transport
  accepts every write, \<open>Command\<close> returns no error and the payloads of the transfers it
  adds are exactly those bytes.
\<close>

theorem Command_writes_trimmed:
  assumes "cmd = (case a of None \<Rightarrow> format | Some args \<Rightarrow> Sprintf format args)"
    and "out = TrimSpace cmd @ [CHR 0x0A]"
  shows "Command Sprintf d format a
           = (snd (fst (Write d (bytes_of out))), snd (Write d (bytes_of out)))
         \<and> (\<exists>ls rs. set ls \<subseteq> set unicodeSpace \<and> set rs \<subseteq> set unicodeSpace
                \<and> cmd = concat ls @ TrimSpace cmd @ concat rs)
         \<and> (\<forall>w\<in>set unicodeSpace. \<not> prefix w (TrimSpace cmd) \<and> \<not> suffix w (TrimSpace cmd))
         \<and> ((\<forall>k. writeRes (usbDevice d) k = None) \<longrightarrow>
                fst (Command Sprintf d format a) = None
                \<and> concat (map hdr_payload (drop (length (writeLog (usbDevice d)))
                      (writeLog (usbDevice (snd (Command Sprintf d format a)))))) = bytes_of out)"
proof -
  have C: "Command Sprintf d format a
           = (snd (fst (Write d (bytes_of out))), snd (Write d (bytes_of out)))"
    by (simp add: Command_def WriteString_def Let_def assms)
  have ok: "(\<forall>k. writeRes (usbDevice d) k = None) \<longrightarrow>
                fst (Command Sprintf d format a) = None
                \<and> concat (map hdr_payload (drop (length (writeLog (usbDevice d)))
                      (writeLog (usbDevice (snd (Command Sprintf d format a)))))) = bytes_of out"
    unfolding C using Write_payloads [of d "bytes_of out"] by simp
  from C TrimSpace_removes [of cmd] TrimSpace_clean [of cmd] ok show ?thesis
    by (intro conjI)
qed

lemma TrimSpace_IDN: "TrimSpace ''  *IDN?  '' = ''*IDN?''"
  by (simp add: TrimSpace_def trimPrefix.simps runeWidth_def unicodeSpace_def)

lemma TrimSpace_RST: "TrimSpace '' *RST'' = ''*RST''"
  by (simp add: TrimSpace_def trimPrefix.simps runeWidth_def unicodeSpace_def)

text \<open>Claim C9, amended, at the command \<open>"  *IDN?  "\<close> on the default device.\<close>

theorem Command_writes_trimmed_witness:
  "fst (Command (\<lambda>f (args :: unit list). f) (defaultDevice quietUSB) ''  *IDN?  '' None) = None
   \<and> concat (map hdr_payload (writeLog (usbDevice (snd
         (Command (\<lambda>f (args :: unit list). f) (defaultDevice quietUSB) ''  *IDN?  '' None)))))
       = bytes_of (''*IDN?'' @ [CHR 0x0A])"
proof -
  let ?d = "defaultDevice quietUSB"
  let ?S = "\<lambda>f (args :: unit list). f :: string"
  have h1: "''  *IDN?  '' = (case None of None \<Rightarrow> ''  *IDN?  '' | Some args \<Rightarrow> ?S ''  *IDN?  '' args)"
    by simp
  have h2: "''*IDN?'' @ [CHR 0x0A] = TrimSpace ''  *IDN?  '' @ [CHR 0x0A]"
    by (simp add: TrimSpace_IDN)
  have ok: "\<forall>k. writeRes (usbDevice ?d) k = None"
    by (simp add: defaultDevice_def quietUSB_def)
  have empty: "length (writeLog (usbDevice ?d)) = 0"
    by (simp add: defaultDevice_def quietUSB_def)
  note T = Command_writes_trimmed [where cmd = "''  *IDN?  ''" and a = None
      and format = "''  *IDN?  ''" and Sprintf = ?S
      and out = "''*IDN?'' @ [CHR 0x0A]" and d = ?d]
  from T [OF h1 h2] ok
  have "fst (Command ?S ?d ''  *IDN?  '' None) = None
        \<and> concat (map hdr_payload (drop (length (writeLog (usbDevice ?d)))
              (writeLog (usbDevice (snd (Command ?S ?d ''  *IDN?  '' None))))))
            = bytes_of (''*IDN?'' @ [CHR 0x0A])"
    by blast
  then show ?thesis
    unfolding empty by simp
qed

text \<open>
  Claim C9 as stated fails: for the input \<open>" *RST"\<close> the claim asks for a payload that
  keeps the leading space, \<open>" *RST"\<close> and a newline; \<open>Command\<close> writes \<open>"*RST"\<close> and a
  newline.
\<close>

theorem Command_trims_leading_space:
  "concat (map hdr_payload (writeLog (usbDevice (snd
      (Command (\<lambda>f (args :: unit list). f) (defaultDevice quietUSB) '' *RST'' None)))))
     = bytes_of (''*RST'' @ [CHR 0x0A])
   \<and> bytes_of (''*RST'' @ [CHR 0x0A]) \<noteq> bytes_of ('' *RST'' @ [CHR 0x0A])"
proof -
  let ?d = "defaultDevice quietUSB"
  let ?out = "bytes_of (''*RST'' @ [CHR 0x0A])"
  have "\<forall>k. writeRes (usbDevice ?d) k = None"
    by (simp add: defaultDevice_def quietUSB_def)
  then have "concat (map hdr_payload (drop (length (writeLog (usbDevice ?d)))
                                       (writeLog (usbDevice (snd (Write ?d ?out)))))) = ?out"
    using Write_payloads by blast
  then have "concat (map hdr_payload (writeLog (usbDevice (snd (Write ?d ?out))))) = ?out"
    by (simp add: defaultDevice_def quietUSB_def)
  then have "concat (map hdr_payload (writeLog (usbDevice (snd
      (Command (\<lambda>f (args :: unit list). f) ?d '' *RST'' None))))) = ?out"
    by (simp add: Command_def WriteString_def Let_def TrimSpace_RST)
  moreover have "?out \<noteq> bytes_of ('' *RST'' @ [CHR 0x0A])"
    by (simp add: bytes_of_def)
  ultimately show ?thesis by (rule conjI)
qed

end
